theory Spec2Isabelle
  imports Main "HOL-Library.AList" "HOL-Library.Char_ord" "HOL-Library.List_Lexorder"
begin

section \<open>French noun formatter: data model\<close>

text \<open>
  The script \<^verbatim>\<open>format_nouns.py\<close> reads a JSON array of noun records and builds the
  dictionary \<^verbatim>\<open>nouns_formatted\<close>. A Python dictionary keeps its keys in insertion order,
  assigning to a key that is present keeps the key's position and assigning to a new key
  appends it; this is what \<^const>\<open>AList.update\<close> does on an association list, so a
  dictionary is an association list here. Reading a missing key raises \<^verbatim>\<open>KeyError\<close>.

  Strings are \<^typ>\<open>string\<close>, read as the UTF-8 bytes of the Python string: equality,
  concatenation and splitting at the ASCII character \<^verbatim>\<open>/\<close> agree on both readings, and
  the lexicographic order of UTF-8 byte strings is the order of the code points.
\<close>

datatype error = KeyError string

type_synonym 'v dict = "(string \<times> 'v) list"

text \<open>One element of \<^verbatim>\<open>nouns_list\<close>: each of the three keys may be absent.\<close>

record noun_vals =
  singular :: "string option"
  plural :: "string option"
  gender :: "string option"

text \<open>An entry of \<^verbatim>\<open>nouns_formatted\<close> is itself a dictionary from field names to strings.\<close>

type_synonym entry = "string dict"
type_synonym nouns = "entry dict"

subsection \<open>Dictionary operations\<close>

definition and_then :: "error + 'a \<Rightarrow> ('a \<Rightarrow> error + 'b) \<Rightarrow> error + 'b" where
  "and_then m f = (case m of Inl e \<Rightarrow> Inl e | Inr x \<Rightarrow> f x)"

text \<open>\<^verbatim>\<open>k in d\<close>\<close>

definition contains :: "'v dict \<Rightarrow> string \<Rightarrow> bool" where
  "contains d k = (k \<in> set (map fst d))"

text \<open>\<^verbatim>\<open>d[k]\<close>\<close>

definition getitem :: "'v dict \<Rightarrow> string \<Rightarrow> error + 'v" where
  "getitem d k = (case map_of d k of None \<Rightarrow> Inl (KeyError k) | Some v \<Rightarrow> Inr v)"

text \<open>\<^verbatim>\<open>d[k] = v\<close>\<close>

definition setitem :: "'v dict \<Rightarrow> string \<Rightarrow> 'v \<Rightarrow> 'v dict" where
  "setitem d k v = AList.update k v d"

text \<open>\<^verbatim>\<open>d[k][f]\<close>\<close>

definition getfield :: "nouns \<Rightarrow> string \<Rightarrow> string \<Rightarrow> error + string" where
  "getfield d k f = and_then (getitem d k) (\<lambda>e. getitem e f)"

text \<open>\<^verbatim>\<open>d[k][f] = v\<close>: the entry \<^verbatim>\<open>d[k]\<close> is read, then updated in place.\<close>

definition setfield :: "nouns \<Rightarrow> string \<Rightarrow> string \<Rightarrow> string \<Rightarrow> error + nouns" where
  "setfield d k f v = and_then (getitem d k) (\<lambda>e. Inr (setitem d k (setitem e f v)))"

section \<open>The helper functions\<close>

definition map_genders :: "string \<Rightarrow> string" where
  "map_genders wikidata_gender =
     (if wikidata_gender \<in> set [''masculine'', ''Q499327''] then ''M''
      else if wikidata_gender \<in> set [''feminine'', ''Q1775415''] then ''F''
      else '''')"

text \<open>
  \<^verbatim>\<open>annotation.split("/")\<close>: one token more than there are separators, empty tokens
  included; the empty string gives one empty token.
\<close>

fun split_slash :: "string \<Rightarrow> string list" where
  "split_slash [] = [[]]"
| "split_slash (c # cs) =
     (if c = CHR ''/'' then [] # split_slash cs
      else (c # hd (split_slash cs)) # tl (split_slash cs))"

text \<open>\<^verbatim>\<open>"/".join(tokens)\<close>\<close>

fun join_slash :: "string list \<Rightarrow> string" where
  "join_slash [] = []"
| "join_slash [t] = t"
| "join_slash (t # u # ts) = t @ CHR ''/'' # join_slash (u # ts)"

text \<open>
  \<^verbatim>\<open>sorted([a for a in set(annotation.split("/")) if a != ""])\<close>: the set is enumerated
  in some order without repetition (\<^const>\<open>remdups\<close> is one such enumeration), the empty
  token is dropped and the rest is sorted.
\<close>

definition order_annotations :: "string \<Rightarrow> string" where
  "order_annotations annotation =
     (if annotation \<in> set [''F'', ''M'', ''PL''] then annotation
      else join_slash (sort (filter (\<lambda>a. a \<noteq> '''') (remdups (split_slash annotation)))))"

section \<open>The merge loop\<close>

text \<open>
  Each record is routed to one block of the loop body. The step reports the innermost
  block it entered together with its outcome.
\<close>

datatype branch =
    Singular_New \<comment> \<open>lines 69-92: the singular is not yet a key\<close>
  | Singular_Known \<comment> \<open>lines 94-99: the singular is a key; nothing is written\<close>
  | Gender_Append \<comment> \<open>lines 100-102: the mapped gender is appended to the form\<close>
  | Gender_Field \<comment> \<open>line 104: the entry's \<^verbatim>\<open>gender\<close> field is read\<close>
  | Gender_Field_Write \<comment> \<open>lines 105-107: the entry's \<^verbatim>\<open>gender\<close> field is written\<close>
  | Plural_New \<comment> \<open>line 112: a plural-only record whose plural is not yet a key\<close>
  | Plural_Update \<comment> \<open>lines 116-119: update under \<^verbatim>\<open>elif "singular" in noun_vals\<close>\<close>
  | Plural_Known \<comment> \<open>a plural-only record whose plural is a key: no block runs\<close>
  | Ignored \<comment> \<open>a record with neither key\<close>

definition new_entry :: entry where
  "new_entry = [(''plural'', ''''), (''form'', '''')]"

definition plural_entry :: entry where
  "plural_entry = [(''plural'', ''isPlural''), (''form'', ''PL'')]"

text \<open>Lines 69-92.\<close>

definition singular_new :: "nouns \<Rightarrow> string \<Rightarrow> noun_vals \<Rightarrow> error + nouns" where
  "singular_new nf s r =
     and_then
       (case gender r of
          None \<Rightarrow> Inr (setitem nf s new_entry)
        | Some g \<Rightarrow> setfield (setitem nf s new_entry) s ''form'' (map_genders g))
       (\<lambda>nf2.
          case plural r of
            None \<Rightarrow> Inr nf2
          | Some p \<Rightarrow>
              and_then (setfield nf2 s ''plural'' p)
                (\<lambda>nf3.
                   if \<not> contains nf3 p then Inr (setitem nf3 p plural_entry)
                   else
                     and_then (setfield nf3 s ''plural'' p)
                       (\<lambda>nf4.
                          and_then (getfield nf4 s ''form'')
                            (\<lambda>f. setfield nf4 s ''form'' (f @ ''/PL'')))))"

text \<open>Lines 94-107.\<close>

definition singular_known :: "nouns \<Rightarrow> string \<Rightarrow> noun_vals \<Rightarrow> branch \<times> (error + nouns)" where
  "singular_known nf s r =
     (case gender r of
        None \<Rightarrow> (Singular_Known, Inr nf)
      | Some g \<Rightarrow>
          (case getfield nf s ''form'' of
             Inl e \<Rightarrow> (Singular_Known, Inl e)
           | Inr f \<Rightarrow>
               if f \<noteq> g then
                 (Gender_Append,
                  and_then (getfield nf s ''form'')
                    (\<lambda>f'. setfield nf s ''form'' (f' @ ''/'' @ map_genders g)))
               else
                 (case getfield nf s ''gender'' of
                    Inl e \<Rightarrow> (Gender_Field, Inl e)
                  | Inr gf \<Rightarrow>
                      if gf = '''' then
                        (Gender_Field_Write, setfield nf s ''gender'' (map_genders g))
                      else (Gender_Field, Inr nf))))"

text \<open>Lines 110-119. \<^verbatim>\<open>noun_vals["singular"]\<close> on line 116 is a dictionary read.\<close>

definition plural_only :: "nouns \<Rightarrow> string \<Rightarrow> noun_vals \<Rightarrow> branch \<times> (error + nouns)" where
  "plural_only nf p r =
     (if \<not> contains nf p then (Plural_New, Inr (setitem nf p plural_entry))
      else if singular r \<noteq> None then
        (Plural_Update,
         case singular r of
           None \<Rightarrow> Inl (KeyError ''singular'')
         | Some s \<Rightarrow>
             and_then (setfield nf s ''plural'' p)
               (\<lambda>nf1.
                  and_then (getfield nf1 s ''form'')
                    (\<lambda>f. setfield nf1 s ''form'' (f @ ''/PL''))))
      else (Plural_Known, Inr nf))"

text \<open>The body of the loop, lines 67-119.\<close>

definition noun_step :: "nouns \<Rightarrow> noun_vals \<Rightarrow> branch \<times> (error + nouns)" where
  "noun_step nf r =
     (case singular r of
        Some s \<Rightarrow>
          if \<not> contains nf s then (Singular_New, singular_new nf s r)
          else singular_known nf s r
      | None \<Rightarrow>
          (case plural r of
             Some p \<Rightarrow> plural_only nf p r
           | None \<Rightarrow> (Ignored, Inr nf)))"

text \<open>The loop of line 66: an exception ends the run.\<close>

fun nouns_loop :: "nouns \<Rightarrow> noun_vals list \<Rightarrow> branch list \<times> (error + nouns)" where
  "nouns_loop nf [] = ([], Inr nf)"
| "nouns_loop nf (r # rs) =
     (case noun_step nf r of
        (b, Inl e) \<Rightarrow> ([b], Inl e)
      | (b, Inr nf') \<Rightarrow> (case nouns_loop nf' rs of (bs, res) \<Rightarrow> (b # bs, res)))"

text \<open>Lines 121-122, over the keys in dictionary order.\<close>

fun order_pass :: "string list \<Rightarrow> nouns \<Rightarrow> error + nouns" where
  "order_pass [] nf = Inr nf"
| "order_pass (k # ks) nf =
     and_then (getfield nf k ''form'')
       (\<lambda>f. and_then (setfield nf k ''form'' (order_annotations f)) (order_pass ks))"

text \<open>
  Lines 64-124: the loop from the empty dictionary, the normalisation pass, and
  \<^verbatim>\<open>OrderedDict(sorted(nouns_formatted.items()))\<close>. The keys of a dictionary differ
  pairwise, so the comparison of two items is decided by their keys.
\<close>

definition nouns_transform :: "noun_vals list \<Rightarrow> error + nouns" where
  "nouns_transform nouns_list =
     and_then (snd (nouns_loop [] nouns_list))
       (\<lambda>nf. and_then (order_pass (map fst nf) nf) (\<lambda>nf'. Inr (sort_key fst nf')))"

section \<open>Specification-side definitions and invariants\<close>

text \<open>
  The Annotation Orderer as the specification words it: the three single annotations are
  returned as they are; otherwise the string is split at \<^verbatim>\<open>/\<close>, empty tokens are
  dropped, the rest is deduplicated as a set, sorted and rejoined.
\<close>

definition order_annotations_spec :: "string \<Rightarrow> string" where
  "order_annotations_spec s =
     (if s = ''F'' \<or> s = ''M'' \<or> s = ''PL'' then s
      else join_slash (sorted_list_of_set (set (filter (\<lambda>a. a \<noteq> '''') (split_slash s)))))"

text \<open>The sorted token list that \<^const>\<open>order_annotations\<close> joins on its slow path.\<close>

definition tokens :: "string \<Rightarrow> string list" where
  "tokens s = sort (filter (\<lambda>a. a \<noteq> '''') (remdups (split_slash s)))"

text \<open>The wordforms a record mentions.\<close>

definition wordforms :: "noun_vals \<Rightarrow> string set" where
  "wordforms r = set_option (singular r) \<union> set_option (plural r)"

text \<open>
  Every entry the loop creates is one of the two literals of lines 69, 80 and 112, and
  the loop assigns to their \<^verbatim>\<open>plural\<close> and \<^verbatim>\<open>form\<close> fields only: an entry has
  exactly these two fields, in this order. The keys of the dictionary differ pairwise.
\<close>

definition wf_entry :: "entry \<Rightarrow> bool" where
  "wf_entry e = (map fst e = [''plural'', ''form''])"

definition wf_nouns :: "nouns \<Rightarrow> bool" where
  "wf_nouns nf = (distinct (map fst nf) \<and> list_all wf_entry (map snd nf))"

text \<open>The characters a stored \<^verbatim>\<open>form\<close> is made of.\<close>

definition form_chars :: "string \<Rightarrow> bool" where
  "form_chars f = (set f \<subseteq> set ''MFPL/'')"

definition form_ok_entry :: "entry \<Rightarrow> bool" where
  "form_ok_entry e = list_all (\<lambda>(k, v). k = ''form'' \<longrightarrow> form_chars v) e"

definition forms_ok :: "nouns \<Rightarrow> bool" where
  "forms_ok nf = list_all form_ok_entry (map snd nf)"

definition nouns_inv :: "nouns \<Rightarrow> bool" where
  "nouns_inv nf = (wf_nouns nf \<and> forms_ok nf)"

text \<open>The form a new singular entry starts with (lines 69-74).\<close>

definition first_form :: "noun_vals \<Rightarrow> string" where
  "first_form r = (case gender r of None \<Rightarrow> '''' | Some g \<Rightarrow> map_genders g)"

section \<open>Splitting, joining and the annotation orderer\<close>

lemma split_slash_nonempty: "split_slash s \<noteq> []"
  by (induction s) auto

lemma split_slash_no_slash: "t \<in> set (split_slash s) \<Longrightarrow> CHR ''/'' \<notin> set t"
proof (induction s arbitrary: t)
  case Nil
  then show ?case by simp
next
  case (Cons c cs)
  obtain u us where us: "split_slash cs = u # us"
    using split_slash_nonempty [of cs] by (cases "split_slash cs") auto
  with Cons show ?case by (auto split: if_splits)
qed

lemma split_slash_token: "CHR ''/'' \<notin> set t \<Longrightarrow> split_slash t = [t]"
  by (induction t) auto

lemma split_slash_append: "CHR ''/'' \<notin> set t \<Longrightarrow> split_slash (t @ CHR ''/'' # r) = t # split_slash r"
  by (induction t) auto

lemma split_join_slash:
  "ts \<noteq> [] \<Longrightarrow> \<forall>t \<in> set ts. CHR ''/'' \<notin> set t \<Longrightarrow> split_slash (join_slash ts) = ts"
proof (induction ts rule: join_slash.induct)
  case 1
  then show ?case by simp
next
  case (2 t)
  then show ?case by (simp add: split_slash_token)
next
  case (3 t u ts)
  then show ?case by (simp add: split_slash_append)
qed

lemma join_split_slash: "join_slash (split_slash s) = s"
proof (induction s)
  case Nil
  then show ?case by simp
next
  case (Cons c cs)
  obtain u us where us: "split_slash cs = u # us"
    using split_slash_nonempty [of cs] by (cases "split_slash cs") auto
  with Cons show ?case by (cases us) auto
qed

lemma tokens_props:
  "distinct (tokens s)" "sorted (tokens s)" "'''' \<notin> set (tokens s)"
  "\<forall>t \<in> set (tokens s). CHR ''/'' \<notin> set t"
  by (auto simp: tokens_def dest: split_slash_no_slash)

lemma tokens_join_tokens: "tokens (join_slash (tokens s)) = tokens s"
proof (cases "tokens s = []")
  case True
  then show ?thesis by (simp add: tokens_def)
next
  case False
  have "split_slash (join_slash (tokens s)) = tokens s"
    using False tokens_props(4) by (rule split_join_slash)
  moreover have "filter (\<lambda>a. a \<noteq> '''') (tokens s) = tokens s"
    using tokens_props(3) [of s] by (auto intro: filter_True)
  moreover have "sort (tokens s) = tokens s"
    using tokens_props(2) by (rule sort_key_id_if_sorted [where f = "\<lambda>x. x", simplified])
  ultimately show ?thesis
    using tokens_props(1) [of s]
    by (simp add: tokens_def [of "join_slash (tokens s)"] distinct_remdups_id)
qed

lemma order_annotations_tokens:
  "order_annotations s = (if s \<in> set [''F'', ''M'', ''PL''] then s else join_slash (tokens s))"
  by (simp add: order_annotations_def tokens_def)

text \<open>
  C5: the Annotation Orderer is idempotent: for every string, ordering the ordered
  annotation gives the ordered annotation again.
\<close>

theorem order_annotations_idempotent:
  "order_annotations (order_annotations s) = order_annotations s"
  by (simp add: order_annotations_tokens tokens_join_tokens)

text \<open>
  C6: for every string, \<^const>\<open>order_annotations\<close> returns what the specification words:
  the string itself when it is exactly \<^verbatim>\<open>F\<close>, \<^verbatim>\<open>M\<close> or \<^verbatim>\<open>PL\<close>; otherwise the tokens
  between the slashes, without the empty ones, deduplicated, sorted and rejoined with slashes.
\<close>

theorem order_annotations_meets_spec: "order_annotations s = order_annotations_spec s"
proof -
  have "sorted_list_of_set (set (filter (\<lambda>a. a \<noteq> '''') (split_slash s)))
          = sort (filter (\<lambda>a. a \<noteq> '''') (remdups (split_slash s)))"
    by (simp only: sorted_list_of_set_sort_remdups remdups_filter)
  then show ?thesis
    by (simp only: order_annotations_def order_annotations_spec_def) simp
qed

lemma order_annotations_enumeration:
  assumes "distinct xs" "set xs = set (split_slash s)"
  shows "sort (filter (\<lambda>a. a \<noteq> '''') xs) = tokens s"
proof (rule sorted_distinct_set_unique)
  show "set (sort (filter (\<lambda>a. a \<noteq> '''') xs)) = set (tokens s)"
    using assms(2) by (simp add: tokens_def)
  show "distinct (sort (filter (\<lambda>a. a \<noteq> '''') xs))"
    using assms(1) by simp
qed (simp_all add: tokens_props)

text \<open>
  C7: \<^const>\<open>map_genders\<close> is a total function of its token: \<^verbatim>\<open>M\<close> for
  \<^verbatim>\<open>masculine\<close> and \<^verbatim>\<open>Q499327\<close>, \<^verbatim>\<open>F\<close> for \<^verbatim>\<open>feminine\<close> and \<^verbatim>\<open>Q1775415\<close>, and
  the empty string for every other token; it has no failing outcome.
\<close>

theorem map_genders_total:
  "map_genders g =
     (if g = ''masculine'' \<or> g = ''Q499327'' then ''M''
      else if g = ''feminine'' \<or> g = ''Q1775415'' then ''F'' else '''')"
  by (simp add: map_genders_def)

theorem map_genders_total_witness:
  "map_genders ''Q499327'' = ''M'' \<and> map_genders ''feminine'' = ''F'' \<and> map_genders ''neuter'' = ''''"
  using map_genders_total [of "''Q499327''"] map_genders_total [of "''feminine''"] map_genders_total [of "''neuter''"]
  by simp

theorem order_annotations_idempotent_witness:
  "order_annotations (order_annotations ''M/PL//F/M'') = ''F/M/PL''"
  using order_annotations_idempotent [of "''M/PL//F/M''"] by code_simp

theorem order_annotations_meets_spec_witness:
  "order_annotations ''M/PL//F/M'' = ''F/M/PL'' \<and> order_annotations_spec ''M/PL//F/M'' = ''F/M/PL''"
  using order_annotations_meets_spec [of "''M/PL//F/M''"] by code_simp

text \<open>
  C8: on the single record chat / chats / masculine the whole transform (loop,
  normalisation pass, key sort) yields exactly the two entries below, in this key order.
\<close>

theorem scenario_A:
  "nouns_transform [\<lparr>singular = Some ''chat'', plural = Some ''chats'', gender = Some ''masculine''\<rparr>]
     = Inr [(''chat'', [(''plural'', ''chats''), (''form'', ''M'')]),
            (''chats'', [(''plural'', ''isPlural''), (''form'', ''PL'')])]"
  by code_simp

text \<open>
  C9: on the two records table / feminine and table / masculine the second record takes
  the appending block, and after the normalisation pass the entry of table has the form
  \<^verbatim>\<open>F/M\<close>.
\<close>

theorem scenario_C:
  "nouns_loop [] [\<lparr>singular = Some ''table'', plural = None, gender = Some ''feminine''\<rparr>,
                   \<lparr>singular = Some ''table'', plural = None, gender = Some ''masculine''\<rparr>]
     = ([Singular_New, Gender_Append], Inr [(''table'', [(''plural'', ''''), (''form'', ''F/M'')])]) \<and>
   nouns_transform [\<lparr>singular = Some ''table'', plural = None, gender = Some ''feminine''\<rparr>,
                    \<lparr>singular = Some ''table'', plural = None, gender = Some ''masculine''\<rparr>]
     = Inr [(''table'', [(''plural'', ''''), (''form'', ''F/M'')])]"
  by code_simp

text \<open>
  C2: the merge engine is claimed never to raise on well-formed input. On a record
  without gender followed by a record with the same singular and the empty gender string,
  the stored form equals the raw gender, line 104 reads the \<^verbatim>\<open>gender\<close> field that no
  entry has, and the run ends with \<^verbatim>\<open>KeyError\<close>.
\<close>

theorem gender_field_raises:
  "nouns_transform [\<lparr>singular = Some ''a'', plural = None, gender = None\<rparr>,
                    \<lparr>singular = Some ''a'', plural = None, gender = Some ''''\<rparr>]
     = Inl (KeyError ''gender'')"
  by code_simp

section \<open>Dictionary lemmas and the blocks of the loop body\<close>

lemma contains_map_of: "contains d k \<longleftrightarrow> map_of d k \<noteq> None"
  by (simp add: contains_def map_of_eq_None_iff)

lemma getitem_Inr: "getitem d k = Inr v \<longleftrightarrow> map_of d k = Some v"
  by (simp add: getitem_def split: option.splits)

lemma getitem_setitem: "getitem (setitem d k v) k' = (if k' = k then Inr v else getitem d k')"
  by (simp add: getitem_def setitem_def update_conv')

lemma map_of_setitem: "map_of (setitem d k v) = (map_of d)(k \<mapsto> v)"
  by (simp add: setitem_def update_conv')

lemma contains_setitem: "contains (setitem d k v) k' \<longleftrightarrow> k' = k \<or> contains d k'"
  by (simp add: contains_map_of map_of_setitem)

lemma keys_setitem:
  "map fst (setitem d k v) = (if contains d k then map fst d else map fst d @ [k])"
  by (simp add: setitem_def contains_def update_keys)

lemma setitem_setitem: "setitem (setitem d k v) k w = setitem d k w"
  by (simp add: setitem_def)

lemma set_setitem: "set (setitem d k v) \<subseteq> insert (k, v) (set d)"
  unfolding setitem_def by (induction d) auto

lemma wf_entry_iff: "wf_entry e \<longleftrightarrow> (\<exists>x f. e = [(''plural'', x), (''form'', f)])"
  by (auto simp: wf_entry_def map_eq_Cons_conv)

lemma wf_nouns_lookup:
  assumes "wf_nouns nf" "contains nf k"
  shows "\<exists>x f. map_of nf k = Some [(''plural'', x), (''form'', f)]"
proof -
  from assms(2) obtain e where e: "map_of nf k = Some e"
    by (auto simp: contains_map_of)
  then have "e \<in> set (map snd nf)"
    by (force dest: map_of_SomeD)
  with assms(1) have "wf_entry e"
    by (auto simp: wf_nouns_def list_all_iff)
  with e show ?thesis by (auto simp: wf_entry_iff)
qed

lemma wf_nouns_setitem:
  assumes "wf_nouns nf" "wf_entry e"
  shows "wf_nouns (setitem nf k e)"
proof -
  have "distinct (map fst (setitem nf k e))"
    using assms(1) by (simp add: wf_nouns_def setitem_def distinct_update)
  moreover have "\<forall>e' \<in> set (map snd (setitem nf k e)). wf_entry e'"
    using assms set_setitem [of nf k e] by (fastforce simp: wf_nouns_def list_all_iff)
  ultimately show ?thesis by (simp add: wf_nouns_def list_all_iff)
qed

lemma getfield_entry:
  "map_of nf k = Some [(''plural'', x), (''form'', f)] \<Longrightarrow>
   getfield nf k ''plural'' = Inr x \<and> getfield nf k ''form'' = Inr f \<and>
   getfield nf k ''gender'' = Inl (KeyError ''gender'')"
  by (simp add: getfield_def getitem_def and_then_def)

lemma setfield_entry:
  "map_of nf k = Some [(''plural'', x), (''form'', f)] \<Longrightarrow>
   setfield nf k ''plural'' v = Inr (setitem nf k [(''plural'', v), (''form'', f)]) \<and>
   setfield nf k ''form'' v = Inr (setitem nf k [(''plural'', x), (''form'', v)])"
  by (simp add: setfield_def getitem_def and_then_def setitem_def)

lemma singular_new_eq:
  "singular_new nf s r =
     Inr (case plural r of
            None \<Rightarrow> setitem nf s [(''plural'', ''''), (''form'', first_form r)]
          | Some p \<Rightarrow>
              if p \<noteq> s \<and> \<not> contains nf p
              then setitem (setitem nf s [(''plural'', p), (''form'', first_form r)]) p plural_entry
              else setitem nf s [(''plural'', p), (''form'', first_form r @ ''/PL'')])"
proof -
  define nf2 where "nf2 = setitem nf s [(''plural'', ''''), (''form'', first_form r)]"
  have g: "(case gender r of
          None \<Rightarrow> Inr (setitem nf s new_entry)
        | Some g \<Rightarrow> setfield (setitem nf s new_entry) s ''form'' (map_genders g)) = Inr nf2"
    by (cases "gender r")
       (simp_all add: nf2_def first_form_def new_entry_def setfield_entry map_of_setitem setitem_setitem)
  have m2: "map_of nf2 s = Some [(''plural'', ''''), (''form'', first_form r)]"
    by (simp add: nf2_def map_of_setitem)
  show ?thesis
  proof (cases "plural r")
    case None
    then show ?thesis by (simp add: singular_new_def g and_then_def nf2_def)
  next
    case (Some p)
    define nf3 where "nf3 = setitem nf s [(''plural'', p), (''form'', first_form r)]"
    have s3: "setfield nf2 s ''plural'' p = Inr nf3"
      using m2 by (simp add: setfield_entry nf3_def nf2_def setitem_setitem)
    have m3: "map_of nf3 s = Some [(''plural'', p), (''form'', first_form r)]"
      by (simp add: nf3_def map_of_setitem)
    have c3: "contains nf3 p \<longleftrightarrow> \<not> (p \<noteq> s \<and> \<not> contains nf p)"
      by (auto simp: nf3_def contains_setitem)
    have s4: "setfield nf3 s ''plural'' p = Inr nf3"
      using m3 by (simp add: setfield_entry) (simp add: nf3_def setitem_setitem)
    have s5: "setfield nf3 s ''form'' (first_form r @ ''/PL'')
                = Inr (setitem nf s [(''plural'', p), (''form'', first_form r @ ''/PL'')])"
      using m3 by (simp add: setfield_entry) (simp add: nf3_def setitem_setitem)
    show ?thesis
      using Some m3 s5
      by (simp add: singular_new_def g and_then_def s3 c3 s4 getfield_entry nf3_def [symmetric])
  qed
qed

lemma singular_known_eq:
  assumes "map_of nf s = Some [(''plural'', x), (''form'', f)]"
  shows "singular_known nf s r =
     (case gender r of
        None \<Rightarrow> (Singular_Known, Inr nf)
      | Some g \<Rightarrow>
          if f \<noteq> g
          then (Gender_Append, Inr (setitem nf s [(''plural'', x), (''form'', f @ ''/'' @ map_genders g)]))
          else (Gender_Field, Inl (KeyError ''gender'')))"
  using getfield_entry [OF assms] setfield_entry [OF assms]
  by (simp add: singular_known_def and_then_def split: option.splits)

lemma plural_only_eq:
  assumes "singular r = None"
  shows "plural_only nf p r =
     (if \<not> contains nf p then (Plural_New, Inr (setitem nf p plural_entry))
      else (Plural_Known, Inr nf))"
  using assms by (simp add: plural_only_def)

section \<open>Invariants of the dictionary\<close>

lemma list_all_setitem:
  assumes "list_all P (map snd nf)" "P e"
  shows "list_all P (map snd (setitem nf k e))"
  using assms set_setitem [of nf k e] by (fastforce simp: list_all_iff)

lemma list_all_lookup:
  assumes "list_all P (map snd nf)" "map_of nf k = Some e"
  shows "P e"
  using assms by (force simp: list_all_iff dest: map_of_SomeD)

lemma form_chars_map_genders: "form_chars (map_genders g)"
  by (auto simp: form_chars_def map_genders_def)

lemma form_chars_first_form: "form_chars (first_form r)"
  by (simp add: first_form_def form_chars_map_genders split: option.splits) (simp add: form_chars_def)

lemma form_chars_append: "form_chars a \<Longrightarrow> form_chars b \<Longrightarrow> form_chars (a @ b)"
  by (simp add: form_chars_def)

lemma form_chars_PL: "form_chars ''/PL''" "form_chars ''/''"
  by (simp_all add: form_chars_def)

lemma form_ok_entry_simp: "form_ok_entry [(''plural'', x), (''form'', f)] = form_chars f"
  by (simp add: form_ok_entry_def)

lemma inv_setitem:
  assumes "nouns_inv nf" "form_chars f"
  shows "nouns_inv (setitem nf k [(''plural'', x), (''form'', f)])"
  using assms
  by (auto simp: nouns_inv_def forms_ok_def wf_entry_def form_ok_entry_simp
      intro!: wf_nouns_setitem list_all_setitem)

lemma inv_lookup:
  assumes "nouns_inv nf" "contains nf k"
  shows "\<exists>x f. map_of nf k = Some [(''plural'', x), (''form'', f)] \<and> form_chars f"
proof -
  from assms obtain x f where m: "map_of nf k = Some [(''plural'', x), (''form'', f)]"
    using wf_nouns_lookup by (auto simp: nouns_inv_def) blast
  moreover have "form_ok_entry [(''plural'', x), (''form'', f)]"
    using assms(1) m by (auto simp: nouns_inv_def forms_ok_def intro: list_all_lookup)
  ultimately show ?thesis by (simp add: form_ok_entry_simp)
qed

lemma inv_empty: "nouns_inv []"
  by (simp add: nouns_inv_def wf_nouns_def forms_ok_def)

text \<open>What one step does to a well-formed dictionary.\<close>

lemma noun_step_cases:
  assumes "nouns_inv nf"
  obtains
    (new) s where "singular r = Some s" "\<not> contains nf s" "fst (noun_step nf r) = Singular_New"
      "snd (noun_step nf r) = singular_new nf s r"
  | (known) s x f where "singular r = Some s" "contains nf s"
      "map_of nf s = Some [(''plural'', x), (''form'', f)]" "form_chars f" "gender r = None"
      "noun_step nf r = (Singular_Known, Inr nf)"
  | (append) s x f g where "singular r = Some s" "contains nf s"
      "map_of nf s = Some [(''plural'', x), (''form'', f)]" "form_chars f" "gender r = Some g" "f \<noteq> g"
      "noun_step nf r = (Gender_Append, Inr (setitem nf s [(''plural'', x), (''form'', f @ ''/'' @ map_genders g)]))"
  | (field) s x f where "singular r = Some s" "contains nf s"
      "map_of nf s = Some [(''plural'', x), (''form'', f)]" "form_chars f" "gender r = Some f"
      "noun_step nf r = (Gender_Field, Inl (KeyError ''gender''))"
  | (plural_new) p where "singular r = None" "plural r = Some p" "\<not> contains nf p"
      "noun_step nf r = (Plural_New, Inr (setitem nf p plural_entry))"
  | (plural_known) p where "singular r = None" "plural r = Some p" "contains nf p"
      "noun_step nf r = (Plural_Known, Inr nf)"
  | (ignored) "singular r = None" "plural r = None" "noun_step nf r = (Ignored, Inr nf)"
proof (cases "singular r")
  case None
  show ?thesis
  proof (cases "plural r")
    case pn: None
    with None ignored show ?thesis by (simp add: noun_step_def)
  next
    case (Some p)
    with None plural_new [of p] plural_known [of p] show ?thesis
      by (cases "contains nf p") (simp_all add: noun_step_def plural_only_eq)
  qed
next
  case (Some s)
  show ?thesis
  proof (cases "contains nf s")
    case False
    with Some new [of s] show ?thesis by (simp add: noun_step_def)
  next
    case True
    with assms obtain x f where m: "map_of nf s = Some [(''plural'', x), (''form'', f)]" "form_chars f"
      using inv_lookup by blast
    show ?thesis
    proof (cases "gender r")
      case None
      with Some True m known [of s x f] show ?thesis
        by (simp add: noun_step_def singular_known_eq)
    next
      case g: (Some g)
      with Some True m append [of s x f g] field [of s x f] show ?thesis
        by (cases "f = g") (simp_all add: noun_step_def singular_known_eq)
    qed
  qed
qed

section \<open>The loop and the whole transform\<close>

lemma singular_new_inv:
  assumes "nouns_inv nf" "singular_new nf s r = Inr nf'"
  shows "nouns_inv nf'"
proof -
  have ff: "form_chars (first_form r)" "form_chars (first_form r @ ''/PL'')" "form_chars ''PL''"
    by (simp_all add: form_chars_first_form form_chars_append form_chars_PL) (simp add: form_chars_def)
  show ?thesis
    using assms ff
    by (auto simp: singular_new_eq plural_entry_def inv_setitem split: option.splits if_splits)
qed

lemma singular_new_contains:
  assumes "singular_new nf s r = Inr nf'"
  shows "contains nf' k \<longleftrightarrow> contains nf k \<or> k = s \<or> plural r = Some k"
  using assms
  by (auto simp: singular_new_eq contains_setitem split: option.splits if_splits)

lemma noun_step_inv:
  assumes "nouns_inv nf" "snd (noun_step nf r) = Inr nf'"
  shows "nouns_inv nf'"
  using assms(1)
proof (cases rule: noun_step_cases [where r = r])
  case (new s)
  with assms show ?thesis by (simp add: singular_new_inv)
next
  case (append s x f g)
  have "form_chars (f @ ''/'' @ map_genders g)"
    using append(4) form_chars_map_genders [of g] by (simp add: form_chars_def)
  with assms append show ?thesis by (auto simp: inv_setitem)
next
  case (plural_new p)
  have "form_chars ''PL''" by (simp add: form_chars_def)
  with assms plural_new show ?thesis by (auto simp: plural_entry_def inv_setitem)
qed (use assms in auto)

lemma noun_step_contains:
  assumes "nouns_inv nf" "snd (noun_step nf r) = Inr nf'"
  shows "contains nf' k \<longleftrightarrow>
           contains nf k \<or> singular r = Some k \<or>
           (plural r = Some k \<and> (\<forall>s. singular r = Some s \<longrightarrow> \<not> contains nf s))"
  using assms(1)
proof (cases rule: noun_step_cases [where r = r])
  case (new s)
  with assms show ?thesis by (auto simp: singular_new_contains)
qed (use assms in \<open>auto simp: contains_setitem\<close>)

lemma noun_step_keys:
  assumes "nouns_inv nf" "snd (noun_step nf r) = Inr nf'"
  shows "\<exists>ks. map fst nf' = map fst nf @ ks"
  using assms(1)
proof (cases rule: noun_step_cases [where r = r])
  case (new s)
  with assms show ?thesis
    by (auto simp: singular_new_eq keys_setitem contains_setitem split: option.splits if_splits)
qed (use assms in \<open>auto simp: keys_setitem\<close>)

lemma snd_nouns_loop_Cons:
  "snd (nouns_loop nf (r # rs)) = and_then (snd (noun_step nf r)) (\<lambda>nf'. snd (nouns_loop nf' rs))"
  by (simp add: and_then_def split: prod.splits sum.splits)

lemma fst_nouns_loop_Cons:
  "fst (nouns_loop nf (r # rs)) =
     fst (noun_step nf r) #
       (case snd (noun_step nf r) of Inl e \<Rightarrow> [] | Inr nf' \<Rightarrow> fst (nouns_loop nf' rs))"
  by (simp split: prod.splits sum.splits)

declare nouns_loop.simps(2) [simp del]

lemma and_then_Inr: "and_then m f = Inr y \<longleftrightarrow> (\<exists>x. m = Inr x \<and> f x = Inr y)"
  by (cases m) (simp_all add: and_then_def)

lemma snd_nouns_loop_append:
  "snd (nouns_loop nf (xs @ ys)) = and_then (snd (nouns_loop nf xs)) (\<lambda>nf'. snd (nouns_loop nf' ys))"
proof (induction xs arbitrary: nf)
  case Nil
  then show ?case by (simp add: and_then_def)
next
  case (Cons r xs)
  show ?case
    by (cases "snd (noun_step nf r)") (simp_all add: snd_nouns_loop_Cons and_then_def Cons.IH)
qed

lemma nouns_loop_inv:
  assumes "nouns_inv nf" "snd (nouns_loop nf rs) = Inr nf'"
  shows "nouns_inv nf'"
  using assms
proof (induction rs arbitrary: nf)
  case Nil
  then show ?case by simp
next
  case (Cons r rs)
  then show ?case
    by (auto simp: snd_nouns_loop_Cons and_then_Inr dest: noun_step_inv)
qed

lemma nouns_loop_mono:
  assumes "nouns_inv nf" "snd (nouns_loop nf rs) = Inr nf'" "contains nf k"
  shows "contains nf' k"
  using assms
proof (induction rs arbitrary: nf)
  case Nil
  then show ?case by simp
next
  case (Cons r rs)
  from Cons.prems obtain nf1 where
    st: "snd (noun_step nf r) = Inr nf1" and lp: "snd (nouns_loop nf1 rs) = Inr nf'"
    by (auto simp: snd_nouns_loop_Cons and_then_Inr)
  have "nouns_inv nf1" using Cons.prems(1) st by (rule noun_step_inv)
  moreover have "contains nf1 k"
    using Cons.prems(3) by (simp add: noun_step_contains [OF Cons.prems(1) st])
  ultimately show ?case using lp Cons.IH by blast
qed

lemma nouns_loop_sound:
  assumes "nouns_inv nf" "snd (nouns_loop nf rs) = Inr nf'" "contains nf' k"
  shows "contains nf k \<or> k \<in> (\<Union>r \<in> set rs. wordforms r)"
  using assms
proof (induction rs arbitrary: nf)
  case Nil
  then show ?case by simp
next
  case (Cons r rs)
  from Cons.prems obtain nf1 where
    st: "snd (noun_step nf r) = Inr nf1" and lp: "snd (nouns_loop nf1 rs) = Inr nf'"
    by (auto simp: snd_nouns_loop_Cons and_then_Inr)
  have "nouns_inv nf1" using Cons.prems(1) st by (rule noun_step_inv)
  then have "contains nf1 k \<or> k \<in> (\<Union>r \<in> set rs. wordforms r)"
    using lp Cons.prems(3) by (rule Cons.IH)
  then show ?case
    by (auto simp: noun_step_contains [OF Cons.prems(1) st] wordforms_def)
qed

text \<open>A record registers its singular; it registers its plural unless its singular was a key.\<close>

lemma nouns_loop_registers:
  assumes "nouns_inv nf0" "snd (nouns_loop nf0 (xs @ r # ys)) = Inr out"
  shows "\<exists>nf. snd (nouns_loop nf0 xs) = Inr nf \<and>
           (\<forall>k. singular r = Some k \<or>
                 (plural r = Some k \<and> (\<forall>s. singular r = Some s \<longrightarrow> \<not> contains nf s))
                 \<longrightarrow> contains out k)"
proof -
  from assms(2) obtain nf nf1 where
    a: "snd (nouns_loop nf0 xs) = Inr nf" and
    b: "snd (noun_step nf r) = Inr nf1" and
    c: "snd (nouns_loop nf1 ys) = Inr out"
    by (auto simp: snd_nouns_loop_append snd_nouns_loop_Cons and_then_Inr)
  have i: "nouns_inv nf" using assms(1) a by (rule nouns_loop_inv)
  have i1: "nouns_inv nf1" using i b by (rule noun_step_inv)
  have "contains out k"
    if "singular r = Some k \<or> (plural r = Some k \<and> (\<forall>s. singular r = Some s \<longrightarrow> \<not> contains nf s))" for k
  proof -
    have "contains nf1 k" using that by (auto simp: noun_step_contains [OF i b])
    with i1 c show ?thesis by (rule nouns_loop_mono)
  qed
  with a show ?thesis by blast
qed

lemma nouns_loop_origin:
  assumes "nouns_inv nf0" "snd (nouns_loop nf0 rs) = Inr out" "contains out k"
  shows "contains nf0 k \<or>
         (\<exists>xs r ys nf. rs = xs @ r # ys \<and> snd (nouns_loop nf0 xs) = Inr nf \<and>
            (singular r = Some k \<or>
             (plural r = Some k \<and> (\<forall>s. singular r = Some s \<longrightarrow> \<not> contains nf s))))"
  using assms(2,3)
proof (induction rs arbitrary: out rule: rev_induct)
  case Nil
  then show ?case by simp
next
  case (snoc r rs)
  from snoc.prems(1) obtain nf1 where
    a: "snd (nouns_loop nf0 rs) = Inr nf1" and b: "snd (noun_step nf1 r) = Inr out"
    by (auto simp: snd_nouns_loop_append snd_nouns_loop_Cons and_then_Inr)
  have i1: "nouns_inv nf1" using assms(1) a by (rule nouns_loop_inv)
  from snoc.prems(2) consider
    (old) "contains nf1 k"
    | (reg) "singular r = Some k \<or>
             (plural r = Some k \<and> (\<forall>s. singular r = Some s \<longrightarrow> \<not> contains nf1 s))"
    by (auto simp: noun_step_contains [OF i1 b])
  then show ?case
  proof cases
    case old
    with a have "contains nf0 k \<or>
         (\<exists>xs r ys nf. rs = xs @ r # ys \<and> snd (nouns_loop nf0 xs) = Inr nf \<and>
            (singular r = Some k \<or>
             (plural r = Some k \<and> (\<forall>s. singular r = Some s \<longrightarrow> \<not> contains nf s))))"
      by (rule snoc.IH)
    then show ?thesis
    proof
      assume "contains nf0 k"
      then show ?thesis ..
    next
      assume "\<exists>xs r ys nf. rs = xs @ r # ys \<and> snd (nouns_loop nf0 xs) = Inr nf \<and>
            (singular r = Some k \<or>
             (plural r = Some k \<and> (\<forall>s. singular r = Some s \<longrightarrow> \<not> contains nf s)))"
      then obtain xs r' ys nf where
        "rs = xs @ r' # ys" "snd (nouns_loop nf0 xs) = Inr nf"
        "singular r' = Some k \<or>
             (plural r' = Some k \<and> (\<forall>s. singular r' = Some s \<longrightarrow> \<not> contains nf s))"
        by blast
      then have "rs @ [r] = xs @ r' # (ys @ [r]) \<and> snd (nouns_loop nf0 xs) = Inr nf \<and>
        (singular r' = Some k \<or>
             (plural r' = Some k \<and> (\<forall>s. singular r' = Some s \<longrightarrow> \<not> contains nf s)))"
        by simp
      then show ?thesis by blast
    qed
  next
    case reg
    with a have "rs @ [r] = rs @ r # [] \<and> snd (nouns_loop nf0 rs) = Inr nf1 \<and>
        (singular r = Some k \<or>
             (plural r = Some k \<and> (\<forall>s. singular r = Some s \<longrightarrow> \<not> contains nf1 s)))"
      by simp
    then show ?thesis by blast
  qed
qed

lemma order_pass_keys:
  assumes "wf_nouns nf" "set ks \<subseteq> set (map fst nf)"
  shows "\<exists>nf'. order_pass ks nf = Inr nf' \<and> map fst nf' = map fst nf \<and> wf_nouns nf'"
  using assms
proof (induction ks arbitrary: nf)
  case Nil
  then show ?case by simp
next
  case (Cons k ks)
  then have c: "contains nf k" by (simp add: contains_def)
  with Cons.prems(1) obtain x f where
    m: "map_of nf k = Some [(''plural'', x), (''form'', f)]"
    using wf_nouns_lookup by blast
  define nf1 where "nf1 = setitem nf k [(''plural'', x), (''form'', order_annotations f)]"
  have k1: "map fst nf1 = map fst nf"
    using c by (simp add: nf1_def keys_setitem)
  have w1: "wf_nouns nf1"
    unfolding nf1_def using Cons.prems(1) by (rule wf_nouns_setitem) (simp add: wf_entry_def)
  have "order_pass (k # ks) nf = order_pass ks nf1"
    using getfield_entry [OF m] setfield_entry [OF m] by (simp add: and_then_def nf1_def)
  moreover have "\<exists>nf'. order_pass ks nf1 = Inr nf' \<and> map fst nf' = map fst nf1 \<and> wf_nouns nf'"
    using w1 Cons.prems(2) by (intro Cons.IH) (simp_all add: k1)
  ultimately show ?case by (simp add: k1)
qed

lemma keys_sort_key:
  "set (map fst (sort_key fst nf)) = set (map fst nf)"
  "distinct (map fst (sort_key fst nf)) = distinct (map fst nf)"
  "sorted (map fst (sort_key fst nf))"
  by (simp_all add: distinct_map)

lemma nouns_transform_Inr:
  assumes "nouns_transform rs = Inr out"
  obtains nf where "snd (nouns_loop [] rs) = Inr nf" "nouns_inv nf"
    "set (map fst out) = set (map fst nf)" "distinct (map fst out)" "sorted (map fst out)"
proof -
  from assms obtain nf nf' where
    a: "snd (nouns_loop [] rs) = Inr nf" and
    b: "order_pass (map fst nf) nf = Inr nf'" and
    c: "out = sort_key fst nf'"
    by (auto simp: nouns_transform_def and_then_Inr)
  have i: "nouns_inv nf" using inv_empty a by (rule nouns_loop_inv)
  then have "wf_nouns nf" by (simp add: nouns_inv_def)
  then obtain nf2 where "order_pass (map fst nf) nf = Inr nf2" "map fst nf2 = map fst nf" "wf_nouns nf2"
    using order_pass_keys [of nf "map fst nf"] by auto
  with b have k: "map fst nf' = map fst nf" and w: "wf_nouns nf'" by simp_all
  have "set (map fst out) = set (map fst nf)"
    unfolding c keys_sort_key(1) by (simp only: k)
  moreover have "distinct (map fst out)"
    unfolding c keys_sort_key(2) using w by (simp add: wf_nouns_def)
  moreover have "sorted (map fst out)"
    unfolding c by (rule keys_sort_key(3))
  ultimately show thesis using a i that by blast
qed

text \<open>
  C1, as amended: when the transform completes, the keys of the output differ pairwise,
  every key is a singular or plural value of some record, every singular value is a key,
  the plural value of every record without singular is a key, and the plural value of a
  record whose singular was not yet a key when the record was processed is a key.
  Conversely every key is the singular of some record, or the plural of a record that has
  no singular or whose singular was not yet a key when it was processed.
\<close>

theorem output_keys:
  assumes "nouns_transform rs = Inr out"
  shows "distinct (map fst out) \<and>
         set (map fst out) \<subseteq> (\<Union>r \<in> set rs. wordforms r) \<and>
         (\<forall>r \<in> set rs. \<forall>s. singular r = Some s \<longrightarrow> contains out s) \<and>
         (\<forall>r \<in> set rs. \<forall>p. singular r = None \<longrightarrow> plural r = Some p \<longrightarrow> contains out p) \<and>
         (\<forall>xs r ys nf s p. rs = xs @ r # ys \<longrightarrow> snd (nouns_loop [] xs) = Inr nf \<longrightarrow>
            singular r = Some s \<longrightarrow> \<not> contains nf s \<longrightarrow> plural r = Some p \<longrightarrow> contains out p) \<and>
         (\<forall>k. contains out k \<longrightarrow>
            (\<exists>xs r ys nf. rs = xs @ r # ys \<and> snd (nouns_loop [] xs) = Inr nf \<and>
               (singular r = Some k \<or>
                (plural r = Some k \<and> (\<forall>s. singular r = Some s \<longrightarrow> \<not> contains nf s)))))"
proof -
  from assms obtain nf where
    a: "snd (nouns_loop [] rs) = Inr nf" and i: "nouns_inv nf" and
    k: "set (map fst out) = set (map fst nf)" and d: "distinct (map fst out)"
    by (rule nouns_transform_Inr)
  have co: "contains out w \<longleftrightarrow> contains nf w" for w
    by (simp only: contains_def k)
  have reg: "contains out w"
    if "rs = xs @ r # ys" "snd (nouns_loop [] xs) = Inr nfx"
       "singular r = Some w \<or> (plural r = Some w \<and> (\<forall>s. singular r = Some s \<longrightarrow> \<not> contains nfx s))"
    for xs r ys nfx w
  proof -
    from a that(1) have "snd (nouns_loop [] (xs @ r # ys)) = Inr nf" by simp
    with inv_empty have "\<exists>nf'. snd (nouns_loop [] xs) = Inr nf' \<and>
           (\<forall>k. singular r = Some k \<or>
                 (plural r = Some k \<and> (\<forall>s. singular r = Some s \<longrightarrow> \<not> contains nf' s))
                 \<longrightarrow> contains nf k)"
      by (rule nouns_loop_registers)
    with that(2,3) show ?thesis by (auto simp: co)
  qed
  have reg': "contains out w"
    if "r \<in> set rs" "singular r = Some w \<or> (plural r = Some w \<and> singular r = None)" for r w
  proof -
    from that(1) obtain xs ys where sp: "rs = xs @ r # ys" by (auto simp: in_set_conv_decomp)
    with a have "snd (nouns_loop [] (xs @ r # ys)) = Inr nf" by simp
    with inv_empty obtain nfx where "snd (nouns_loop [] xs) = Inr nfx"
      using nouns_loop_registers by blast
    with sp that(2) show ?thesis by (intro reg [of xs r ys nfx w]) auto
  qed
  have "set (map fst out) \<subseteq> (\<Union>r \<in> set rs. wordforms r)"
  proof
    fix w assume "w \<in> set (map fst out)"
    then have "contains out w" by (simp only: contains_def)
    then have "contains nf w" by (simp only: co)
    with inv_empty a have "contains ([]::nouns) w \<or> w \<in> (\<Union>r \<in> set rs. wordforms r)"
      by (rule nouns_loop_sound)
    then show "w \<in> (\<Union>r \<in> set rs. wordforms r)" by (simp add: contains_def)
  qed
  moreover have "\<forall>r \<in> set rs. \<forall>s. singular r = Some s \<longrightarrow> contains out s"
    using reg' by blast
  moreover have "\<forall>r \<in> set rs. \<forall>p. singular r = None \<longrightarrow> plural r = Some p \<longrightarrow> contains out p"
    using reg' by blast
  moreover have "\<forall>xs r ys nf s p. rs = xs @ r # ys \<longrightarrow> snd (nouns_loop [] xs) = Inr nf \<longrightarrow>
            singular r = Some s \<longrightarrow> \<not> contains nf s \<longrightarrow> plural r = Some p \<longrightarrow> contains out p"
  proof (intro allI impI)
    fix xs r ys nfx s p
    assume "rs = xs @ r # ys" "snd (nouns_loop [] xs) = Inr nfx"
      "singular r = Some s" "\<not> contains nfx s" "plural r = Some p"
    then show "contains out p" by (intro reg [of xs r ys nfx p]) auto
  qed
  moreover have "\<forall>k. contains out k \<longrightarrow>
            (\<exists>xs r ys nf. rs = xs @ r # ys \<and> snd (nouns_loop [] xs) = Inr nf \<and>
               (singular r = Some k \<or>
                (plural r = Some k \<and> (\<forall>s. singular r = Some s \<longrightarrow> \<not> contains nf s))))"
  proof (intro allI impI)
    fix w assume "contains out w"
    then have "contains nf w" by (simp only: co)
    with inv_empty a have "contains ([]::nouns) w \<or>
         (\<exists>xs r ys nf. rs = xs @ r # ys \<and> snd (nouns_loop [] xs) = Inr nf \<and>
            (singular r = Some w \<or>
             (plural r = Some w \<and> (\<forall>s. singular r = Some s \<longrightarrow> \<not> contains nf s))))"
      by (rule nouns_loop_origin)
    then show "\<exists>xs r ys nf. rs = xs @ r # ys \<and> snd (nouns_loop [] xs) = Inr nf \<and>
            (singular r = Some w \<or>
             (plural r = Some w \<and> (\<forall>s. singular r = Some s \<longrightarrow> \<not> contains nf s)))"
      by (simp add: contains_def)
  qed
  ultimately show ?thesis using d by (intro conjI)
qed

section \<open>Branches of the loop body\<close>

lemma noun_step_not_plural_update: "fst (noun_step nf r) \<noteq> Plural_Update"
  by (simp add: noun_step_def singular_known_def plural_only_def
      split: option.splits sum.splits)

lemma nouns_loop_not_plural_update: "Plural_Update \<notin> set (fst (nouns_loop nf rs))"
proof (induction rs arbitrary: nf)
  case Nil
  then show ?case by simp
next
  case (Cons r rs)
  then show ?case
    using noun_step_not_plural_update [of nf r]
    by (auto simp: fst_nouns_loop_Cons split: sum.splits)
qed

text \<open>
  C4: the update block under \<^verbatim>\<open>elif "singular" in noun_vals\<close> (lines 116-119) is
  never run, whatever the input; a plural-only record whose plural is already a key leaves
  the dictionary as it is.
\<close>

theorem plural_update_dead:
  "Plural_Update \<notin> set (fst (nouns_loop [] rs)) \<and>
   (singular r = None \<longrightarrow> plural r = Some p \<longrightarrow> contains nf p \<longrightarrow>
      noun_step nf r = (Plural_Known, Inr nf))"
  by (simp add: nouns_loop_not_plural_update noun_step_def plural_only_eq)

theorem plural_update_dead_witness:
  "Plural_Update \<notin> set (fst (nouns_loop []
       [\<lparr>singular = None, plural = Some ''gens'', gender = None\<rparr>,
        \<lparr>singular = None, plural = Some ''gens'', gender = None\<rparr>])) \<and>
   contains [(''gens'', plural_entry)] ''gens'' \<and>
   noun_step [(''gens'', plural_entry)] \<lparr>singular = None, plural = Some ''gens'', gender = None\<rparr>
     = (Plural_Known, Inr [(''gens'', plural_entry)])"
  using plural_update_dead [of
      "[\<lparr>singular = None, plural = Some ''gens'', gender = None\<rparr>,
        \<lparr>singular = None, plural = Some ''gens'', gender = None\<rparr>]"
      "\<lparr>singular = None, plural = Some ''gens'', gender = None\<rparr>" "''gens''"
      "[(''gens'', plural_entry)]"]
  by (simp add: contains_def)

lemma noun_step_gender_field:
  assumes "nouns_inv nf"
  shows "fst (noun_step nf r) \<noteq> Gender_Field_Write"
    and "fst (noun_step nf r) = Gender_Field \<Longrightarrow> \<exists>g. gender r = Some g \<and> form_chars g"
  using assms by (cases rule: noun_step_cases [where r = r]; simp)+

lemma nouns_loop_gender_field:
  assumes "nouns_inv nf"
  shows "Gender_Field_Write \<notin> set (fst (nouns_loop nf rs)) \<and>
         ((\<forall>r \<in> set rs. \<forall>g. gender r = Some g \<longrightarrow> \<not> form_chars g) \<longrightarrow>
            Gender_Field \<notin> set (fst (nouns_loop nf rs)))"
  using assms
proof (induction rs arbitrary: nf)
  case Nil
  then show ?case by simp
next
  case (Cons r rs)
  show ?case
  proof (cases "snd (noun_step nf r)")
    case (Inl e)
    with noun_step_gender_field [OF Cons.prems, of r] show ?thesis
      by (auto simp: fst_nouns_loop_Cons)
  next
    case (Inr nf1)
    with Cons.prems have "nouns_inv nf1" by (auto dest: noun_step_inv)
    from Cons.IH [OF this] Inr noun_step_gender_field [OF Cons.prems, of r] show ?thesis
      by (auto simp: fst_nouns_loop_Cons)
  qed
qed

lemma noun_step_gender_field_iff:
  assumes "nouns_inv nf"
  shows "fst (noun_step nf r) = Gender_Field \<longleftrightarrow>
           (\<exists>s g. singular r = Some s \<and> contains nf s \<and> gender r = Some g \<and>
                  getfield nf s ''form'' = Inr g)"
  using assms
proof (cases rule: noun_step_cases [where r = r])
  case (new s)
  then show ?thesis by auto
next
  case (known s x f)
  then show ?thesis by auto
next
  case (append s x f g)
  with getfield_entry [OF append(3)] show ?thesis by auto
next
  case (field s x f)
  with getfield_entry [OF field(3)] show ?thesis by auto
qed auto

text \<open>
  C3, as amended: the assignment to an entry's \<^verbatim>\<open>gender\<close> field (lines 105-107) is
  never run, whatever the input; and the test of line 104 is never reached on an input in
  which every gender value has a character other than \<^verbatim>\<open>M\<close>, \<^verbatim>\<open>F\<close>, \<^verbatim>\<open>P\<close>, \<^verbatim>\<open>L\<close>
  and \<^verbatim>\<open>/\<close>. On a dictionary the loop has built, a record reaches that test exactly
  when its singular is a key and the stored form of that entry equals its raw gender.
\<close>

theorem gender_branch_guarded:
  "Gender_Field_Write \<notin> set (fst (nouns_loop [] rs)) \<and>
   ((\<forall>r \<in> set rs. \<forall>g. gender r = Some g \<longrightarrow> \<not> form_chars g) \<longrightarrow>
      Gender_Field \<notin> set (fst (nouns_loop [] rs))) \<and>
   (snd (nouns_loop [] xs) = Inr nf \<longrightarrow>
      (fst (noun_step nf r) = Gender_Field \<longleftrightarrow>
         (\<exists>s g. singular r = Some s \<and> contains nf s \<and> gender r = Some g \<and>
                getfield nf s ''form'' = Inr g)))"
proof -
  have "fst (noun_step nf r) = Gender_Field \<longleftrightarrow>
         (\<exists>s g. singular r = Some s \<and> contains nf s \<and> gender r = Some g \<and>
                getfield nf s ''form'' = Inr g)"
    if "snd (nouns_loop [] xs) = Inr nf"
  proof -
    have "nouns_inv nf" using inv_empty that by (rule nouns_loop_inv)
    then show ?thesis by (rule noun_step_gender_field_iff)
  qed
  with nouns_loop_gender_field [OF inv_empty, of rs] show ?thesis by blast
qed

lemma recognised_gender_not_form:
  "g \<in> set [''masculine'', ''Q499327'', ''feminine'', ''Q1775415''] \<Longrightarrow> \<not> form_chars g"
  by (auto simp: form_chars_def)

theorem gender_branch_guarded_witness:
  "\<not> form_chars ''feminine'' \<and> \<not> form_chars ''masculine'' \<and>
   Gender_Field \<notin> set (fst (nouns_loop []
       [\<lparr>singular = Some ''table'', plural = None, gender = Some ''feminine''\<rparr>,
        \<lparr>singular = Some ''table'', plural = None, gender = Some ''masculine''\<rparr>])) \<and>
   Gender_Field_Write \<notin> set (fst (nouns_loop []
       [\<lparr>singular = Some ''table'', plural = None, gender = Some ''feminine''\<rparr>,
        \<lparr>singular = Some ''table'', plural = None, gender = Some ''masculine''\<rparr>])) \<and>
   snd (nouns_loop [] [\<lparr>singular = Some ''table'', plural = None, gender = Some ''feminine''\<rparr>])
     = Inr [(''table'', [(''plural'', ''''), (''form'', ''F'')])] \<and>
   fst (noun_step [(''table'', [(''plural'', ''''), (''form'', ''F'')])]
          \<lparr>singular = Some ''table'', plural = None, gender = Some ''F''\<rparr>) = Gender_Field"
proof -
  have f: "\<not> form_chars ''feminine''" "\<not> form_chars ''masculine''"
    by (simp_all add: form_chars_def)
  then have h: "\<forall>r \<in> set [\<lparr>singular = Some ''table'', plural = None, gender = Some ''feminine''\<rparr>,
               \<lparr>singular = Some ''table'', plural = None, gender = Some ''masculine''\<rparr>].
      \<forall>g. gender r = Some g \<longrightarrow> \<not> form_chars g"
    by simp
  have l: "snd (nouns_loop [] [\<lparr>singular = Some ''table'', plural = None, gender = Some ''feminine''\<rparr>])
     = Inr [(''table'', [(''plural'', ''''), (''form'', ''F'')])]"
    by code_simp
  have c: "singular \<lparr>singular = Some ''table'', plural = None, gender = Some ''F''\<rparr> = Some ''table'' \<and>
      contains [(''table'', [(''plural'', ''''), (''form'', ''F'')])] ''table'' \<and>
      gender \<lparr>singular = Some ''table'', plural = None, gender = Some ''F''\<rparr> = Some ''F'' \<and>
      getfield [(''table'', [(''plural'', ''''), (''form'', ''F'')])] ''table'' ''form'' = Inr ''F''"
    by (simp add: contains_def getfield_def getitem_def and_then_def)
  from gender_branch_guarded [of
      "[\<lparr>singular = Some ''table'', plural = None, gender = Some ''feminine''\<rparr>,
        \<lparr>singular = Some ''table'', plural = None, gender = Some ''masculine''\<rparr>]"
      "[\<lparr>singular = Some ''table'', plural = None, gender = Some ''feminine''\<rparr>]"
      "[(''table'', [(''plural'', ''''), (''form'', ''F'')])]"
      "\<lparr>singular = Some ''table'', plural = None, gender = Some ''F''\<rparr>"] f h l c
  show ?thesis by blast
qed

text \<open>
  C3 as stated fails: after a record without gender, a record with the same singular
  and the empty gender string reaches the test of line 104.
\<close>

theorem gender_branch_reached:
  "Gender_Field \<in> set (fst (nouns_loop []
       [\<lparr>singular = Some ''a'', plural = None, gender = None\<rparr>,
        \<lparr>singular = Some ''a'', plural = None, gender = Some ''''\<rparr>]))"
  by code_simp

text \<open>
  C10: a record whose singular is already a key of a dictionary the loop has built
  either ends the run at line 104 (exactly when its raw gender equals the stored form) or
  yields a dictionary that differs from the old one at most in the \<^verbatim>\<open>form\<close> field of
  that entry: the key list, every other entry and the entry's \<^verbatim>\<open>plural\<close> field are the
  same. The record's plural value plays no part, and without a gender the dictionary is
  unchanged.
\<close>

theorem known_singular_frame:
  assumes "snd (nouns_loop [] rs) = Inr nf" "singular r = Some s" "contains nf s"
  shows "(gender r = None \<longrightarrow> snd (noun_step nf r) = Inr nf) \<and>
         (snd (noun_step nf r) = Inl (KeyError ''gender'') \<longleftrightarrow>
            (\<exists>g. gender r = Some g \<and> getfield nf s ''form'' = Inr g)) \<and>
         (snd (noun_step nf r) = Inl (KeyError ''gender'') \<or>
          (\<exists>nf'. snd (noun_step nf r) = Inr nf' \<and>
             (nf' = nf \<or> (\<exists>v. setfield nf s ''form'' v = Inr nf')) \<and>
             map fst nf' = map fst nf \<and>
             (\<forall>k. k \<noteq> s \<longrightarrow> map_of nf' k = map_of nf k) \<and>
             getfield nf' s ''plural'' = getfield nf s ''plural'')) \<and>
         noun_step nf (r\<lparr>plural := q\<rparr>) = noun_step nf r"
proof -
  have i: "nouns_inv nf" using inv_empty assms(1) by (rule nouns_loop_inv)
  with assms(3) obtain x f where
    m: "map_of nf s = Some [(''plural'', x), (''form'', f)]"
    using inv_lookup by blast
  note gf = getfield_entry [OF m]
  note sf = setfield_entry [OF m]
  have st: "noun_step nf r' = singular_known nf s r'" if "singular r' = Some s" for r'
    using that assms(3) by (simp add: noun_step_def)
  have q: "noun_step nf (r\<lparr>plural := q\<rparr>) = noun_step nf r"
    using assms(2) by (simp add: st singular_known_eq [OF m])
  show ?thesis
  proof (cases "gender r")
    case None
    then show ?thesis
      using q by (simp add: st [OF assms(2)] singular_known_eq [OF m])
  next
    case (Some g)
    show ?thesis
    proof (cases "f = g")
      case True
      with Some show ?thesis
        using q gf by (simp add: st [OF assms(2)] singular_known_eq [OF m])
    next
      case False
      define nf' where "nf' = setitem nf s [(''plural'', x), (''form'', f @ ''/'' @ map_genders g)]"
      have r: "snd (noun_step nf r) = Inr nf'"
        using Some False by (simp add: st [OF assms(2)] singular_known_eq [OF m] nf'_def)
      have "map fst nf' = map fst nf"
        using assms(3) by (simp add: nf'_def keys_setitem)
      moreover have "\<forall>k. k \<noteq> s \<longrightarrow> map_of nf' k = map_of nf k"
        by (simp add: nf'_def map_of_setitem)
      moreover have "getfield nf' s ''plural'' = getfield nf s ''plural''"
        using gf by (simp add: nf'_def getfield_def getitem_def and_then_def map_of_setitem)
      moreover have "setfield nf s ''form'' (f @ ''/'' @ map_genders g) = Inr nf'"
        using sf by (simp add: nf'_def)
      ultimately show ?thesis
        using Some False q r gf by auto
    qed
  qed
qed

theorem known_singular_frame_witness:
  "snd (nouns_loop [] [\<lparr>singular = Some ''table'', plural = Some ''tables'', gender = Some ''feminine''\<rparr>])
     = Inr [(''table'', [(''plural'', ''tables''), (''form'', ''F'')]), (''tables'', plural_entry)] \<and>
   contains [(''table'', [(''plural'', ''tables''), (''form'', ''F'')]), (''tables'', plural_entry)] ''table'' \<and>
   noun_step [(''table'', [(''plural'', ''tables''), (''form'', ''F'')]), (''tables'', plural_entry)]
       \<lparr>singular = Some ''table'', plural = None, gender = Some ''masculine''\<rparr>
     = noun_step [(''table'', [(''plural'', ''tables''), (''form'', ''F'')]), (''tables'', plural_entry)]
       \<lparr>singular = Some ''table'', plural = Some ''tablettes'', gender = Some ''masculine''\<rparr>"
proof -
  have h1: "snd (nouns_loop [] [\<lparr>singular = Some ''table'', plural = Some ''tables'', gender = Some ''feminine''\<rparr>])
     = Inr [(''table'', [(''plural'', ''tables''), (''form'', ''F'')]), (''tables'', plural_entry)]"
    by code_simp
  have h2: "singular \<lparr>singular = Some ''table'', plural = Some ''tablettes'', gender = Some ''masculine''\<rparr>
     = Some ''table''"
    by simp
  have h3: "contains [(''table'', [(''plural'', ''tables''), (''form'', ''F'')]), (''tables'', plural_entry)] ''table''"
    by (simp add: contains_def)
  from known_singular_frame [OF h1 h2 h3, of None] h1 h3 show ?thesis by simp
qed

lemma nouns_loop_completes:
  assumes "nouns_inv nf" "\<forall>r \<in> set rs. \<forall>g. gender r = Some g \<longrightarrow> \<not> form_chars g"
  shows "\<exists>nf'. snd (nouns_loop nf rs) = Inr nf'"
  using assms
proof (induction rs arbitrary: nf)
  case Nil
  then show ?case by simp
next
  case (Cons r rs)
  have "\<exists>nf1. snd (noun_step nf r) = Inr nf1"
    using Cons.prems(1)
  proof (cases rule: noun_step_cases [where r = r])
    case (new s)
    then show ?thesis by (simp add: singular_new_eq)
  next
    case (field s x f)
    with Cons.prems(2) show ?thesis by auto
  qed simp_all
  then obtain nf1 where st: "snd (noun_step nf r) = Inr nf1" ..
  with Cons.prems(1) have "nouns_inv nf1" by (auto dest: noun_step_inv)
  with Cons.prems(2) have "\<exists>nf'. snd (nouns_loop nf1 rs) = Inr nf'"
    by (intro Cons.IH) simp_all
  with st show ?case by (simp add: snd_nouns_loop_Cons and_then_def)
qed

lemma nouns_transform_completes:
  assumes "\<forall>r \<in> set rs. \<forall>g. gender r = Some g \<longrightarrow> \<not> form_chars g"
  shows "\<exists>out. nouns_transform rs = Inr out"
proof -
  from inv_empty assms obtain nf where a: "snd (nouns_loop [] rs) = Inr nf"
    using nouns_loop_completes by blast
  with inv_empty have "nouns_inv nf" by (rule nouns_loop_inv)
  then have "wf_nouns nf" by (simp add: nouns_inv_def)
  then obtain nf' where "order_pass (map fst nf) nf = Inr nf'"
    using order_pass_keys [of nf "map fst nf"] by auto
  with a show ?thesis by (simp add: nouns_transform_def and_then_def)
qed

theorem output_keys_witness:
  "nouns_transform [\<lparr>singular = Some ''chat'', plural = Some ''chats'', gender = Some ''masculine''\<rparr>]
     = Inr [(''chat'', [(''plural'', ''chats''), (''form'', ''M'')]), (''chats'', plural_entry)] \<and>
   distinct (map fst [(''chat'', [(''plural'', ''chats''), (''form'', ''M'')]), (''chats'', plural_entry)]) \<and>
   contains [(''chat'', [(''plural'', ''chats''), (''form'', ''M'')]), (''chats'', plural_entry)] ''chat''"
proof -
  have h: "nouns_transform [\<lparr>singular = Some ''chat'', plural = Some ''chats'', gender = Some ''masculine''\<rparr>]
     = Inr [(''chat'', [(''plural'', ''chats''), (''form'', ''M'')]), (''chats'', plural_entry)]"
    by code_simp
  from output_keys [OF h] h show ?thesis by simp
qed

text \<open>
  C1 as stated fails: the second record's singular is already a key, and its plural
  \<^verbatim>\<open>ciels\<close> is not a key of the output.
\<close>

theorem plural_dropped:
  "nouns_transform
     [\<lparr>singular = Some ''ciel'', plural = Some ''cieux'', gender = Some ''masculine''\<rparr>,
      \<lparr>singular = Some ''ciel'', plural = Some ''ciels'', gender = Some ''masculine''\<rparr>]
     = Inr [(''ciel'', [(''plural'', ''cieux''), (''form'', ''M'')]),
            (''cieux'', [(''plural'', ''isPlural''), (''form'', ''PL'')])] \<and>
   \<not> contains [(''ciel'', [(''plural'', ''cieux''), (''form'', ''M'')]),
                (''cieux'', [(''plural'', ''isPlural''), (''form'', ''PL'')])] ''ciels''"
  by code_simp

end
